theory Spec2Isabelle
  imports Complex_Main "HOL-Library.Log_Nat"
begin

section \<open>Browser utility module (static/js/main.js)\<close>

text \<open>
  The module is a set of independent helper functions around browser APIs. Each
  function is embedded as a HOL function over an explicit model of the part of the
  browser it touches: exceptions are values of \<open>js_error\<close>, the DOM is a store of
  elements indexed by node number, timers are a table of pending callbacks with a
  clock, and the functions passed to \<open>debounce\<close> and \<open>throttle\<close> are
  observed through the list of their invocations.
\<close>

datatype js_error = TypeError | NotAllowedError

subsection \<open>isValidUrl\<close>

text \<open>
  \<^verbatim>\<open>
  function isValidUrl(url) {
      try { new URL(url); return true; } catch { return false; }
  }
  \<close>
  The URL constructor belongs to the browser, so it is a parameter: a function from
  strings to either an exception or a parsed URL. The result of \<open>isValidUrl\<close>
  keeps the exception channel (\<open>Inl\<close>), so that not throwing is a property and
  not a consequence of the type.
\<close>

definition isValidUrl :: "(string \<Rightarrow> js_error + 'u) \<Rightarrow> string \<Rightarrow> js_error + bool" where
  "isValidUrl URL url = (case URL url of Inr _ \<Rightarrow> Inr True | Inl _ \<Rightarrow> Inr False)"

subsection \<open>formatFileSize\<close>

text \<open>
  \<^verbatim>\<open>
  function formatFileSize(bytes) {
      if (bytes === 0) return '0 Bytes';
      const k = 1024;
      const sizes = ['Bytes', 'KB', 'MB', 'GB', 'TB'];
      const i = Math.floor(Math.log(bytes) / Math.log(k));
      return parseFloat((bytes / Math.pow(k, i)).toFixed(2)) + ' ' + sizes[i];
  }
  \<close>
  The argument is a byte count, a natural number. Arithmetic is exact. \<open>Math.log\<close> is
  the logarithm, so \<open>i\<close> is the number of times \<open>bytes\<close> can be divided by \<open>k\<close> before
  it drops below \<open>k\<close> (lemma \<open>log_floor_eq\<close> gives it as the floor of the quotient of
  the logarithms); the rounding of \<open>Math.log\<close> in double arithmetic is not modelled.
  The quotient \<open>bytes / k^i\<close> is kept as a fraction, which is the value a double holds
  for a byte count below \<open>2^53\<close> divided by a power of two. A number with at most two
  fraction digits is represented by its count of hundredths.
\<close>

definition digit :: "nat \<Rightarrow> char" where
  "digit d = ''0123456789'' ! d"

definition is_digit :: "char \<Rightarrow> bool" where
  "is_digit c \<longleftrightarrow> c \<in> set ''0123456789''"

definition digit_value :: "char \<Rightarrow> nat" where
  "digit_value c = of_char c - 48"

function show_nat :: "nat \<Rightarrow> string" where
  "show_nat n = (if n < 10 then [digit n] else show_nat (n div 10) @ [digit (n mod 10)])"
  by pat_completeness auto
termination
  by (relation "measure id") auto

declare show_nat.simps [simp del]

definition read_nat :: "string \<Rightarrow> nat" where
  "read_nat ds = foldl (\<lambda>a c. 10 * a + digit_value c) 0 ds"

text \<open>
  \<open>Math.floor(Math.log(n) / Math.log(k))\<close> for \<open>n \<ge> 1\<close>.
\<close>

function log_floor :: "nat \<Rightarrow> nat \<Rightarrow> nat" where
  "log_floor k n = (if k < 2 \<or> n < k then 0 else Suc (log_floor k (n div k)))"
  by pat_completeness auto
termination
  by (relation "measure snd") auto

declare log_floor.simps [simp del]

text \<open>
  \<open>(num / den).toFixed(2)\<close>: the count of hundredths closest to the quotient, the
  larger one when two are equally close, written with exactly two fraction digits.
\<close>

definition round_hundredths :: "nat \<Rightarrow> nat \<Rightarrow> nat" where
  "round_hundredths num den = (200 * num + den) div (2 * den)"

definition toFixed2 :: "nat \<Rightarrow> nat \<Rightarrow> string" where
  "toFixed2 num den =
     (let n = round_hundredths num den
      in show_nat (n div 100) @ ''.'' @ [digit (n div 10 mod 10), digit (n mod 10)])"

text \<open>
  \<open>parseFloat\<close> on a decimal numeral with at most two fraction digits: the number
  read, in hundredths. On any other string the result is \<open>None\<close>: it is \<open>NaN\<close> or a
  number the representation does not hold, and \<open>formatFileSize\<close> never passes one
  (lemma \<open>parseFloat_toFixed2\<close>).
\<close>

definition parseFloat :: "string \<Rightarrow> nat option" where
  "parseFloat s =
     (let ip = takeWhile is_digit s; rest = dropWhile is_digit s
      in if ip = [] then None
         else case rest of
             [] \<Rightarrow> Some (100 * read_nat ip)
           | [c, a] \<Rightarrow>
               if c = CHR ''.'' \<and> is_digit a
               then Some (100 * read_nat ip + 10 * digit_value a) else None
           | [c, a, b] \<Rightarrow>
               if c = CHR ''.'' \<and> is_digit a \<and> is_digit b
               then Some (100 * read_nat ip + 10 * digit_value a + digit_value b) else None
           | _ \<Rightarrow> None)"

text \<open>
  A number in a string concatenation: the shortest decimal numeral that denotes it, so
  the fraction digits end at the last one that is not zero and a whole number has no
  decimal point; \<open>NaN\<close> is written out. An array read outside the array is
  \<open>undefined\<close>, and is written out too.
\<close>

definition number_string :: "nat \<Rightarrow> string" where
  "number_string n =
     (let q = n div 100; r = n mod 100
      in if r = 0 then show_nat q
         else if r mod 10 = 0 then show_nat q @ ''.'' @ [digit (r div 10)]
         else show_nat q @ ''.'' @ [digit (r div 10), digit (r mod 10)])"

definition number_to_string :: "nat option \<Rightarrow> string" where
  "number_to_string x = (case x of None \<Rightarrow> ''NaN'' | Some n \<Rightarrow> number_string n)"

definition at_index :: "'a list \<Rightarrow> nat \<Rightarrow> 'a option" where
  "at_index xs i = (if i < length xs then Some (xs ! i) else None)"

definition string_of :: "string option \<Rightarrow> string" where
  "string_of x = (case x of None \<Rightarrow> ''undefined'' | Some s \<Rightarrow> s)"

definition sizes :: "string list" where
  "sizes = [''Bytes'', ''KB'', ''MB'', ''GB'', ''TB'']"

text \<open>
  \<open>size_string k i bytes\<close> is the value of the return expression for given \<open>k\<close> and
  \<open>i\<close>; \<open>formatFileSize\<close> evaluates it at \<open>k = 1024\<close> and the index computed from
  the logarithms.
\<close>

definition size_string :: "nat \<Rightarrow> nat \<Rightarrow> nat \<Rightarrow> string" where
  "size_string k i bytes =
     number_to_string (parseFloat (toFixed2 bytes (k ^ i))) @ '' '' @ string_of (at_index sizes i)"

definition formatFileSize :: "nat \<Rightarrow> string" where
  "formatFileSize bytes =
     (if bytes = 0 then ''0 Bytes''
      else
        let k = 1024;
            i = log_floor k bytes
        in size_string k i bytes)"

text \<open>Reading a formatted size: the part before the space, and its digits after the point.\<close>

definition numeric_part :: "string \<Rightarrow> string" where
  "numeric_part s = takeWhile (\<lambda>c. c \<noteq> CHR '' '') s"

definition fraction_digits :: "string \<Rightarrow> nat" where
  "fraction_digits s = length (drop 1 (dropWhile (\<lambda>c. c \<noteq> CHR ''.'') s))"

subsection \<open>Timers\<close>

text \<open>
  \<open>setTimeout\<close> and \<open>clearTimeout\<close> act on a table of pending timers: each entry is
  the handle, the time at which the timer is due and the callback (the values its
  closure captured). Time is a natural number of milliseconds. A handle that is
  \<open>undefined\<close> or \<open>null\<close> is \<open>None\<close>; clearing it does nothing.
\<close>

record 'c timers =
  clock :: nat
  nextTimer :: nat
  pending :: "(nat \<times> nat \<times> 'c) list"

definition setTimeout :: "'c \<Rightarrow> nat \<Rightarrow> 'c timers \<Rightarrow> nat \<times> 'c timers" where
  "setTimeout callback delay t =
     (nextTimer t,
      t\<lparr>nextTimer := Suc (nextTimer t),
        pending := pending t @ [(nextTimer t, clock t + delay, callback)]\<rparr>)"

definition clearTimeout :: "nat option \<Rightarrow> 'c timers \<Rightarrow> 'c timers" where
  "clearTimeout handle t =
     (case handle of
        None \<Rightarrow> t
      | Some i \<Rightarrow> t\<lparr>pending := filter (\<lambda>x. fst x \<noteq> i) (pending t)\<rparr>)"

text \<open>
  The event loop runs the pending timer that is due first (the one registered first
  among those due at the same time), once the clock has reached its time.
\<close>

fun earliest :: "(nat \<times> nat \<times> 'c) list \<Rightarrow> (nat \<times> nat \<times> 'c) option" where
  "earliest [] = None"
| "earliest (x # xs) =
     (case earliest xs of
        None \<Rightarrow> Some x
      | Some y \<Rightarrow> if fst (snd y) < fst (snd x) then Some y else Some x)"

definition next_due :: "nat \<Rightarrow> 'c timers \<Rightarrow> (nat \<times> nat \<times> 'c) option" where
  "next_due T t =
     (case earliest (pending t) of
        None \<Rightarrow> None
      | Some x \<Rightarrow> if fst (snd x) \<le> T then Some x else None)"

definition fire :: "nat \<Rightarrow> nat \<Rightarrow> 'c timers \<Rightarrow> 'c timers" where
  "fire i due t =
     t\<lparr>clock := max (clock t) due, pending := filter (\<lambda>x. fst x \<noteq> i) (pending t)\<rparr>"

definition tick :: "nat \<Rightarrow> 'c timers \<Rightarrow> 'c timers" where
  "tick T t = t\<lparr>clock := max (clock t) T\<rparr>"

lemma earliest_in: "earliest xs = Some x \<Longrightarrow> x \<in> set xs"
  by (induction xs arbitrary: x) (auto split: option.splits if_splits)

lemma earliest_le: "y \<in> set xs \<Longrightarrow> \<exists>x. earliest xs = Some x \<and> fst (snd x) \<le> fst (snd y)"
  by (induction xs) (auto split: option.splits)

lemma next_due_in: "next_due T t = Some x \<Longrightarrow> x \<in> set (pending t) \<and> fst (snd x) \<le> T"
  by (auto simp: next_due_def earliest_in split: option.splits if_splits)

lemma next_due_some:
  "y \<in> set (pending t) \<Longrightarrow> fst (snd y) \<le> T \<Longrightarrow> \<exists>x. next_due T t = Some x"
  using earliest_le[of y "pending t"] by (auto simp: next_due_def)

lemma filter_shorter: "x \<in> set xs \<Longrightarrow> length (filter (\<lambda>y. fst y \<noteq> fst x) xs) < length xs"
  by (induction xs) (auto simp: less_Suc_eq_le)

subsection \<open>debounce\<close>

text \<open>
  \<^verbatim>\<open>
  function debounce(func, wait) {
      let timeout;
      return function executedFunction(...args) {
          const later = function() {
              clearTimeout(timeout);
              timeout = null;
              func(...args);
          };
          clearTimeout(timeout);
          timeout = setTimeout(later, wait);
      };
  }
  \<close>
  The state of one debounced function is the variable \<open>timeout\<close> of its closure, the
  timer table, and the invocations of \<open>func\<close> so far, each with its time and arguments.
  A pending timer holds the arguments its \<open>later\<close> captured. \<open>debounce now\<close> is the
  state when \<open>debounce\<close> returns, at time \<open>now\<close>. Each call of the wrapper is an event
  of its own: the timers due by the time of the call have run before it.
\<close>

record 'a debounce_state =
  dtimers :: "'a timers"
  timeout :: "nat option"
  dcalls :: "(nat \<times> 'a) list"

definition debounce :: "nat \<Rightarrow> 'a debounce_state" where
  "debounce now =
     \<lparr>dtimers = \<lparr>clock = now, nextTimer = 1, pending = []\<rparr>, timeout = None, dcalls = []\<rparr>"

definition later :: "'a \<Rightarrow> 'a debounce_state \<Rightarrow> 'a debounce_state" where
  "later args s =
     (let s1 = s\<lparr>dtimers := clearTimeout (timeout s) (dtimers s)\<rparr>;
          s2 = s1\<lparr>timeout := None\<rparr>
      in s2\<lparr>dcalls := dcalls s2 @ [(clock (dtimers s2), args)]\<rparr>)"

definition executedFunction :: "nat \<Rightarrow> 'a \<Rightarrow> 'a debounce_state \<Rightarrow> 'a debounce_state" where
  "executedFunction wait args s =
     (let s1 = s\<lparr>dtimers := clearTimeout (timeout s) (dtimers s)\<rparr>;
          (h, t) = setTimeout args wait (dtimers s1)
      in s1\<lparr>dtimers := t, timeout := Some h\<rparr>)"

lemma pending_later:
  "length (pending (dtimers (later args s))) \<le> length (pending (dtimers s))"
  by (simp add: later_def clearTimeout_def split: option.splits)

function debounce_run_timers :: "nat \<Rightarrow> 'a debounce_state \<Rightarrow> 'a debounce_state" where
  "debounce_run_timers T s =
     (case next_due T (dtimers s) of
        None \<Rightarrow> s\<lparr>dtimers := tick T (dtimers s)\<rparr>
      | Some (i, due, args) \<Rightarrow>
          debounce_run_timers T (later args (s\<lparr>dtimers := fire i due (dtimers s)\<rparr>)))"
  by pat_completeness auto
termination
proof (relation "measure (\<lambda>(T, s). length (pending (dtimers s)))")
  show "wf (measure (\<lambda>(T, s). length (pending (dtimers s))))" by simp
next
  fix T :: nat and s :: "'a debounce_state" and x2 i y due args
  assume "next_due T (dtimers s) = Some x2" "(i, y) = x2" "(due, args) = y"
  then have "(i, due, args) \<in> set (pending (dtimers s))"
    using next_due_in by fastforce
  from filter_shorter[OF this]
  have "length (pending (dtimers (s\<lparr>dtimers := fire i due (dtimers s)\<rparr>)))
      < length (pending (dtimers s))"
    by (simp add: fire_def)
  with pending_later[of args "s\<lparr>dtimers := fire i due (dtimers s)\<rparr>"]
  show "((T, later args (s\<lparr>dtimers := fire i due (dtimers s)\<rparr>)), T, s)
       \<in> measure (\<lambda>(T, s). length (pending (dtimers s)))"
    by simp
qed

declare debounce_run_timers.simps [simp del]

fun debounce_calls :: "nat \<Rightarrow> (nat \<times> 'a) list \<Rightarrow> 'a debounce_state \<Rightarrow> 'a debounce_state" where
  "debounce_calls wait [] s = s"
| "debounce_calls wait ((t, args) # cs) s =
     debounce_calls wait cs (executedFunction wait args (debounce_run_timers t s))"

text \<open>
  A burst: times in order, each less than \<open>wait\<close> after the one before.
\<close>

fun burst :: "nat \<Rightarrow> nat list \<Rightarrow> bool" where
  "burst wait (t # t' # ts) = (t \<le> t' \<and> t' < t + wait \<and> burst wait (t' # ts))"
| "burst wait ts = True"

text \<open>
  After a call at time \<open>t\<close> with arguments \<open>a\<close> the wrapper is armed: one timer is
  pending, due at \<open>t + wait\<close> with \<open>a\<close>, \<open>timeout\<close> holds its handle, and \<open>func\<close> has
  not been invoked.
\<close>

definition armed :: "nat \<Rightarrow> nat \<Rightarrow> 'a \<Rightarrow> 'a debounce_state \<Rightarrow> bool" where
  "armed wait t a s \<longleftrightarrow>
     (\<exists>h. pending (dtimers s) = [(h, t + wait, a)] \<and> timeout s = Some h) \<and>
     clock (dtimers s) = t \<and> dcalls s = []"

subsection \<open>throttle\<close>

text \<open>
  \<^verbatim>\<open>
  function throttle(func, limit) {
      let inThrottle;
      return function() {
          const args = arguments;
          const context = this;
          if (!inThrottle) {
              func.apply(context, args);
              inThrottle = true;
              setTimeout(function() { inThrottle = false; }, limit);
          }
      };
  }
  \<close>
  The variable \<open>inThrottle\<close> starts \<open>undefined\<close>, which the test reads as false. The
  function returned has no name in the source; it is \<open>throttled\<close> here, and the
  callback of its timer is \<open>release\<close>.
\<close>

record 'a throttle_state =
  ttimers :: "unit timers"
  inThrottle :: bool
  tcalls :: "(nat \<times> 'a) list"

definition throttle :: "nat \<Rightarrow> 'a throttle_state" where
  "throttle now =
     \<lparr>ttimers = \<lparr>clock = now, nextTimer = 1, pending = []\<rparr>, inThrottle = False, tcalls = []\<rparr>"

definition release :: "'a throttle_state \<Rightarrow> 'a throttle_state" where
  "release s = s\<lparr>inThrottle := False\<rparr>"

definition throttled :: "nat \<Rightarrow> 'a \<Rightarrow> 'a throttle_state \<Rightarrow> 'a throttle_state" where
  "throttled limit args s =
     (if \<not> inThrottle s then
        let s1 = s\<lparr>tcalls := tcalls s @ [(clock (ttimers s), args)]\<rparr>;
            s2 = s1\<lparr>inThrottle := True\<rparr>;
            (h, t) = setTimeout () limit (ttimers s2)
        in s2\<lparr>ttimers := t\<rparr>
      else s)"

function throttle_run_timers :: "nat \<Rightarrow> 'a throttle_state \<Rightarrow> 'a throttle_state" where
  "throttle_run_timers T s =
     (case next_due T (ttimers s) of
        None \<Rightarrow> s\<lparr>ttimers := tick T (ttimers s)\<rparr>
      | Some (i, due, u) \<Rightarrow>
          throttle_run_timers T (release (s\<lparr>ttimers := fire i due (ttimers s)\<rparr>)))"
  by pat_completeness auto
termination
proof (relation "measure (\<lambda>(T, s). length (pending (ttimers s)))")
  show "wf (measure (\<lambda>(T, s). length (pending (ttimers s))))" by simp
next
  fix T :: nat and s :: "'a throttle_state" and x2 i y due and u :: unit
  assume "next_due T (ttimers s) = Some x2" "(i, y) = x2" "(due, u) = y"
  then have "(i, due, u) \<in> set (pending (ttimers s))"
    using next_due_in by fastforce
  from filter_shorter[OF this]
  show "((T, release (s\<lparr>ttimers := fire i due (ttimers s)\<rparr>)), T, s)
       \<in> measure (\<lambda>(T, s). length (pending (ttimers s)))"
    by (simp add: fire_def release_def)
qed

declare throttle_run_timers.simps [simp del]

fun throttle_calls :: "nat \<Rightarrow> (nat \<times> 'a) list \<Rightarrow> 'a throttle_state \<Rightarrow> 'a throttle_state" where
  "throttle_calls limit [] s = s"
| "throttle_calls limit ((t, args) # cs) s =
     throttle_calls limit cs (throttled limit args (throttle_run_timers t s))"

text \<open>
  After an invocation the wrapper is blocked: \<open>inThrottle\<close> is true and one timer is
  pending, due at \<open>due\<close>; the clock has not passed \<open>B\<close>.
\<close>

definition blocked :: "nat \<Rightarrow> nat \<Rightarrow> 'a throttle_state \<Rightarrow> bool" where
  "blocked due B s \<longleftrightarrow>
     inThrottle s \<and> (\<exists>h. pending (ttimers s) = [(h, due, ())]) \<and> clock (ttimers s) \<le> B"

subsection \<open>The document\<close>

text \<open>
  Elements live in a store indexed by node number; a reference to an element is its
  number. An element carries the properties the module reads and writes. Its content
  is the markup string \<open>innerHTML\<close>; the nodes put into it through \<open>insertBefore\<close>
  are listed in \<open>childNodes\<close>, first child first. \<open>document.querySelector\<close> is a
  parameter \<open>qs\<close>: it maps the elements of the document and a selector to the first
  matching element, or to \<open>None\<close> for \<open>null\<close>.
\<close>

type_synonym node = nat

record element =
  className :: string
  innerHTML :: string
  disabled :: bool
  attributes :: "string \<rightharpoonup> string"
  parentNode :: "node option"
  childNodes :: "node list"

record page =
  elements :: "node \<Rightarrow> element"
  nextNode :: node
  ptimers :: "node timers"
  console :: "(string \<times> js_error) list"
  written :: "string list"

type_synonym selector = "(node \<Rightarrow> element) \<Rightarrow> string \<Rightarrow> node option"

definition blank :: element where
  "blank = \<lparr>className = [], innerHTML = [], disabled = False, attributes = Map.empty,
             parentNode = None, childNodes = []\<rparr>"

definition update :: "node \<Rightarrow> (element \<Rightarrow> element) \<Rightarrow> page \<Rightarrow> page" where
  "update n f p = p\<lparr>elements := (elements p)(n := f (elements p n))\<rparr>"

definition createElement :: "page \<Rightarrow> node \<times> page" where
  "createElement p =
     (nextNode p, p\<lparr>elements := (elements p)(nextNode p := blank), nextNode := Suc (nextNode p)\<rparr>)"

definition getAttribute :: "string \<Rightarrow> element \<Rightarrow> string option" where
  "getAttribute name e = attributes e name"

definition setAttribute :: "string \<Rightarrow> string \<Rightarrow> element \<Rightarrow> element" where
  "setAttribute name v e = e\<lparr>attributes := (attributes e)(name \<mapsto> v)\<rparr>"

text \<open>
  \<open>n.remove()\<close>: takes the node out of its parent's children; nothing happens when it
  has no parent.
\<close>

definition remove :: "node \<Rightarrow> page \<Rightarrow> page" where
  "remove n p =
     (case parentNode (elements p n) of
        None \<Rightarrow> p
      | Some par \<Rightarrow>
          update n (\<lambda>e. e\<lparr>parentNode := None\<rparr>)
            (update par (\<lambda>e. e\<lparr>childNodes := removeAll n (childNodes e)\<rparr>) p))"

text \<open>
  \<open>par.insertBefore(n, par.firstChild)\<close>: the node leaves its former parent, if any,
  and becomes the first child of \<open>par\<close> (the only child when \<open>par\<close> had none, where
  \<open>firstChild\<close> is \<open>null\<close>).
\<close>

definition insertFirst :: "node \<Rightarrow> node \<Rightarrow> page \<Rightarrow> page" where
  "insertFirst par n p =
     update n (\<lambda>e. e\<lparr>parentNode := Some par\<rparr>)
       (update par (\<lambda>e. e\<lparr>childNodes := n # childNodes e\<rparr>) (remove n p))"

subsection \<open>showAlert\<close>

text \<open>
  \<^verbatim>\<open>
  function showAlert(message, type, container) {
      const alertDiv = document.createElement('div');
      alertDiv.className = `alert alert-${type} alert-dismissible fade show`;
      alertDiv.innerHTML = `
          ${message}
          <button type="button" class="btn-close" data-bs-dismiss="alert"></button>
      `;
      const targetContainer = container || document.querySelector('.container');
      targetContainer.insertBefore(alertDiv, targetContainer.firstChild);
      setTimeout(function() {
          if (alertDiv.parentNode) { alertDiv.remove(); }
      }, 5000);
  }
  \<close>
  The container argument is \<open>Some c\<close> for an element and \<open>None\<close> when it is left out
  or \<open>null\<close>. The query for \<open>.container\<close> is made while \<open>alertDiv\<close> is still detached,
  so it sees the document as it was when \<open>showAlert\<close> was called. \<open>insertBefore\<close> on
  a \<open>null\<close> target throws a \<open>TypeError\<close>; the element created before that is
  unreachable, so the exception leaves the page as it was.
\<close>

definition alertClass :: "string \<Rightarrow> string" where
  "alertClass type = ''alert alert-'' @ type @ '' alert-dismissible fade show''"

definition closeButton :: string where
  "closeButton =
     ''<button type='' @ [CHR 0x22] @ ''button'' @ [CHR 0x22] @
     '' class='' @ [CHR 0x22] @ ''btn-close'' @ [CHR 0x22] @
     '' data-bs-dismiss='' @ [CHR 0x22] @ ''alert'' @ [CHR 0x22] @ ''></button>''"

definition alertMarkup :: "string \<Rightarrow> string" where
  "alertMarkup message =
     [CHR 0x0A] @ ''        '' @ message @ [CHR 0x0A] @ ''        '' @ closeButton @
     [CHR 0x0A] @ ''    ''"

definition alertTimeout :: "node \<Rightarrow> page \<Rightarrow> page" where
  "alertTimeout alertDiv p =
     (if parentNode (elements p alertDiv) \<noteq> None then remove alertDiv p else p)"

definition showAlert :: "selector \<Rightarrow> string \<Rightarrow> string \<Rightarrow> node option \<Rightarrow> page \<Rightarrow> js_error + page" where
  "showAlert qs message type container p =
     (let (alertDiv, p1) = createElement p;
          p2 = update alertDiv (\<lambda>e. e\<lparr>className := alertClass type\<rparr>) p1;
          p3 = update alertDiv (\<lambda>e. e\<lparr>innerHTML := alertMarkup message\<rparr>) p2;
          targetContainer = (case container of Some c \<Rightarrow> Some c | None \<Rightarrow> qs (elements p) ''.container'')
      in case targetContainer of
           None \<Rightarrow> Inl TypeError
         | Some tc \<Rightarrow>
             let p4 = insertFirst tc alertDiv p3;
                 (h, tm) = setTimeout alertDiv 5000 (ptimers p4)
             in Inr (p4\<lparr>ptimers := tm\<rparr>))"

subsection \<open>copyToClipboard\<close>

text \<open>
  \<^verbatim>\<open>
  function copyToClipboard(text) {
      navigator.clipboard.writeText(text).then(function() {
          showAlert('Copied to clipboard!', 'success');
      }).catch(function(err) {
          console.error('Could not copy text: ', err);
          showAlert('Failed to copy to clipboard', 'error');
      });
  }
  \<close>
  The call itself only starts the write, which is recorded in \<open>written\<close>. The two
  handlers run when the promise of \<open>writeText\<close> settles: \<open>None\<close> when it resolves,
  \<open>Some err\<close> when it rejects with \<open>err\<close>. As \<open>catch\<close> is chained after \<open>then\<close>, it
  also receives an exception thrown by the first handler. The result of
  \<open>clipboardSettled\<close> is the page after the handlers and the state of the last promise
  of the chain (\<open>Some e\<close>: rejected with \<open>e\<close>, which nothing handles).
\<close>

definition copyToClipboard :: "string \<Rightarrow> page \<Rightarrow> page" where
  "copyToClipboard text p = p\<lparr>written := written p @ [text]\<rparr>"

definition onCopied :: "selector \<Rightarrow> page \<Rightarrow> js_error option \<times> page" where
  "onCopied qs p =
     (case showAlert qs ''Copied to clipboard!'' ''success'' None p of
        Inr p' \<Rightarrow> (None, p')
      | Inl e \<Rightarrow> (Some e, p))"

definition onCopyFailed :: "selector \<Rightarrow> js_error \<Rightarrow> page \<Rightarrow> js_error option \<times> page" where
  "onCopyFailed qs err p =
     (let p1 = p\<lparr>console := console p @ [(''Could not copy text: '', err)]\<rparr>
      in case showAlert qs ''Failed to copy to clipboard'' ''error'' None p1 of
           Inr p' \<Rightarrow> (None, p')
         | Inl e \<Rightarrow> (Some e, p1))"

definition clipboardSettled :: "selector \<Rightarrow> js_error option \<Rightarrow> page \<Rightarrow> js_error option \<times> page" where
  "clipboardSettled qs outcome p =
     (case (case outcome of None \<Rightarrow> onCopied qs p | Some err \<Rightarrow> (Some err, p)) of
        (None, p') \<Rightarrow> (None, p')
      | (Some err, p') \<Rightarrow> onCopyFailed qs err p')"

subsection \<open>setLoading and storeOriginalText\<close>

text \<open>
  \<^verbatim>\<open>
  function setLoading(element, loading) {
      const btn = typeof element === 'string' ? document.querySelector(element) : element;
      if (loading) {
          btn.disabled = true;
          btn.innerHTML = '<i class="fas fa-spinner fa-spin me-2"></i>Loading...';
      } else {
          btn.disabled = false;
          btn.innerHTML = btn.getAttribute('data-original-text') || btn.innerHTML;
      }
  }
  function storeOriginalText(buttons) {
      buttons.forEach(function(button) {
          button.setAttribute('data-original-text', button.innerHTML);
      });
  }
  \<close>
  The first argument of \<open>setLoading\<close> is a selector string or an element. When the
  selector matches nothing, \<open>btn\<close> is \<open>null\<close> and the first assignment throws. The
  operator \<open>||\<close> yields its right operand when the left one is \<open>null\<close> or the empty
  string.
\<close>

datatype target = Selector string | Element node

definition spinner :: string where
  "spinner =
     ''<i class='' @ [CHR 0x22] @ ''fas fa-spinner fa-spin me-2'' @ [CHR 0x22] @
     ''></i>Loading...''"

definition js_or :: "string option \<Rightarrow> string \<Rightarrow> string" where
  "js_or a b = (case a of None \<Rightarrow> b | Some s \<Rightarrow> if s = [] then b else s)"

definition setLoading :: "selector \<Rightarrow> target \<Rightarrow> bool \<Rightarrow> page \<Rightarrow> js_error + page" where
  "setLoading qs element loading p =
     (case (case element of Selector s \<Rightarrow> qs (elements p) s | Element n \<Rightarrow> Some n) of
        None \<Rightarrow> Inl TypeError
      | Some btn \<Rightarrow>
          if loading then
            Inr (update btn (\<lambda>e. e\<lparr>innerHTML := spinner\<rparr>)
                  (update btn (\<lambda>e. e\<lparr>disabled := True\<rparr>) p))
          else
            Inr (update btn
                  (\<lambda>e. e\<lparr>innerHTML := js_or (getAttribute ''data-original-text'' e) (innerHTML e)\<rparr>)
                  (update btn (\<lambda>e. e\<lparr>disabled := False\<rparr>) p)))"

fun storeOriginalText :: "node list \<Rightarrow> page \<Rightarrow> page" where
  "storeOriginalText [] p = p"
| "storeOriginalText (button # buttons) p =
     storeOriginalText buttons
       (update button (\<lambda>e. setAttribute ''data-original-text'' (innerHTML e) e) p)"

subsection \<open>The timers of the page\<close>

text \<open>
  The only callback the page's timers carry is the one \<open>showAlert\<close> registers, so a
  pending timer of the page holds the \<open>alertDiv\<close> of its closure. \<open>page_run_timers T\<close>
  lets time pass until \<open>T\<close>: the timers due by then run in order, then the clock is at
  \<open>T\<close>. It terminates because the callback registers no timer.
\<close>

lemma elements_update:
  "elements (update n f p) m = (if m = n then f (elements p n) else elements p m)"
  by (simp add: update_def)

lemma ptimers_update [simp]: "ptimers (update n f p) = ptimers p"
  by (simp add: update_def)

lemma nextNode_update [simp]: "nextNode (update n f p) = nextNode p"
  by (simp add: update_def)

lemma ptimers_remove [simp]: "ptimers (remove n p) = ptimers p"
  by (simp add: remove_def split: option.splits)

lemma ptimers_alertTimeout [simp]: "ptimers (alertTimeout n p) = ptimers p"
  by (simp add: alertTimeout_def)

function page_run_timers :: "nat \<Rightarrow> page \<Rightarrow> page" where
  "page_run_timers T p =
     (case next_due T (ptimers p) of
        None \<Rightarrow> p\<lparr>ptimers := tick T (ptimers p)\<rparr>
      | Some (i, due, alertDiv) \<Rightarrow>
          page_run_timers T (alertTimeout alertDiv (p\<lparr>ptimers := fire i due (ptimers p)\<rparr>)))"
  by pat_completeness auto
termination
proof (relation "measure (\<lambda>(T, p). length (pending (ptimers p)))")
  show "wf (measure (\<lambda>(T, p). length (pending (ptimers p))))" by simp
next
  fix T :: nat and p :: page and x2 i y due alertDiv
  assume "next_due T (ptimers p) = Some x2" "(i, y) = x2" "(due, alertDiv) = y"
  then have "(i, due, alertDiv) \<in> set (pending (ptimers p))"
    using next_due_in by fastforce
  from filter_shorter[OF this]
  show "((T, alertTimeout alertDiv (p\<lparr>ptimers := fire i due (ptimers p)\<rparr>)), T, p)
       \<in> measure (\<lambda>(T, p). length (pending (ptimers p)))"
    by (simp add: fire_def)
qed

declare page_run_timers.simps [simp del]

subsection \<open>Sequencing, well-formed pages and example pages\<close>

text \<open>Two statements in sequence: the second runs on the page the first leaves, unless it threw.\<close>

definition andThen :: "js_error + page \<Rightarrow> (page \<Rightarrow> js_error + page) \<Rightarrow> js_error + page" where
  "andThen r f = (case r of Inl e \<Rightarrow> Inl e | Inr p \<Rightarrow> f p)"

text \<open>
  In a page built by the operations above, every node listed as a child and every
  handle and node held by a pending timer was allocated before: node numbers are below
  \<open>nextNode\<close> and handles below \<open>nextTimer\<close>.
\<close>

definition well_formed :: "page \<Rightarrow> bool" where
  "well_formed p \<longleftrightarrow>
     (\<forall>c n. n \<in> set (childNodes (elements p c)) \<longrightarrow> n < nextNode p) \<and>
     (\<forall>x\<in>set (pending (ptimers p)). fst x < nextTimer (ptimers p) \<and> snd (snd x) < nextNode p)"

text \<open>A node is linked when every element that lists it as a child is its parent.\<close>

definition linked :: "node \<Rightarrow> page \<Rightarrow> bool" where
  "linked n q \<longleftrightarrow>
     (\<forall>c. n \<in> set (childNodes (elements q c)) \<longrightarrow> parentNode (elements q n) = Some c)"

text \<open>The page \<open>showAlert\<close> leaves when the target container is an element other than the new one.\<close>

definition shown :: "string \<Rightarrow> string \<Rightarrow> node \<Rightarrow> page \<Rightarrow> page" where
  "shown message type c p =
     p\<lparr>elements := (elements p)
          (nextNode p := blank\<lparr>className := alertClass type, innerHTML := alertMarkup message,
                                 parentNode := Some c\<rparr>,
           c := (elements p c)\<lparr>childNodes := nextNode p # childNodes (elements p c)\<rparr>),
        nextNode := Suc (nextNode p),
        ptimers := (ptimers p)
          \<lparr>nextTimer := Suc (nextTimer (ptimers p)),
            pending := pending (ptimers p) @
              [(nextTimer (ptimers p), clock (ptimers p) + 5000, nextNode p)]\<rparr>\<rparr>"

text \<open>
  \<open>examplePage\<close>: a container (node 0) with two buttons, one labelled Save (node 1) and
  one with empty content (node 2). \<open>barePage\<close>: a single button and no container.
  \<open>exampleQuery\<close> answers the selector \<open>.container\<close> by looking at node 0.
\<close>

definition examplePage :: page where
  "examplePage =
     \<lparr>elements = (\<lambda>_. blank)
        (0 := blank\<lparr>className := ''container'', childNodes := [1, 2]\<rparr>,
         1 := blank\<lparr>innerHTML := ''Save'', parentNode := Some 0\<rparr>,
         2 := blank\<lparr>parentNode := Some 0\<rparr>),
      nextNode = 3,
      ptimers = \<lparr>clock = 0, nextTimer = 1, pending = []\<rparr>,
      console = [],
      written = []\<rparr>"

definition barePage :: page where
  "barePage =
     \<lparr>elements = (\<lambda>_. blank)(0 := blank\<lparr>innerHTML := ''Save''\<rparr>),
      nextNode = 1,
      ptimers = \<lparr>clock = 0, nextTimer = 1, pending = []\<rparr>,
      console = [],
      written = []\<rparr>"

definition exampleQuery :: selector where
  "exampleQuery els s =
     (if s = ''.container'' \<and> className (els 0) = ''container'' then Some 0 else None)"

section \<open>Properties\<close>

subsection \<open>URL validation\<close>

text \<open>
  C6. For every URL parser and every string \<open>s\<close>, \<open>isValidUrl\<close> returns normally, and
  the value it returns is true exactly when the URL constructor accepts \<open>s\<close>.
\<close>

theorem isValidUrl_iff_parses:
  "(\<exists>b. isValidUrl URL s = Inr b) \<and>
   (isValidUrl URL s = Inr True \<longleftrightarrow> (\<exists>u. URL s = Inr u))"
  by (cases "URL s") (auto simp: isValidUrl_def)

subsection \<open>Lemmas on numerals and logarithms\<close>

lemma log_floor_small: "n < k \<Longrightarrow> log_floor k n = 0"
  by (simp add: log_floor.simps)

lemma log_floor_step: "2 \<le> k \<Longrightarrow> k \<le> n \<Longrightarrow> log_floor k n = Suc (log_floor k (n div k))"
  by (subst log_floor.simps) simp

lemma show_nat_small: "n < 10 \<Longrightarrow> show_nat n = [digit n]"
  by (simp add: show_nat.simps)

lemma show_nat_step: "10 \<le> n \<Longrightarrow> show_nat n = show_nat (n div 10) @ [digit (n mod 10)]"
  by (subst show_nat.simps) simp

lemma log_floor_bounds:
  "2 \<le> k \<Longrightarrow> 0 < n \<Longrightarrow> k ^ log_floor k n \<le> n \<and> n < k ^ Suc (log_floor k n)"
proof (induction k n rule: log_floor.induct)
  case (1 k n)
  show ?case
  proof (cases "n < k")
    case True
    with 1 show ?thesis by (simp add: log_floor_small)
  next
    case False
    with "1.prems" have pos: "0 < n div k" by (simp add: div_greater_zero_iff)
    from False "1.prems" have ih:
      "k ^ log_floor k (n div k) \<le> n div k \<and> n div k < k ^ Suc (log_floor k (n div k))"
      by (intro "1.IH") (use pos in auto)
    let ?j = "log_floor k (n div k)"
    have lo: "k * k ^ ?j \<le> n"
    proof -
      from ih have "k * k ^ ?j \<le> k * (n div k)" by simp
      also have "\<dots> \<le> n" by simp
      finally show ?thesis .
    qed
    have hi: "n < k * (k * k ^ ?j)"
    proof -
      from ih have "Suc (n div k) \<le> k * k ^ ?j" by simp
      then have "k * Suc (n div k) \<le> k * (k * k ^ ?j)" by (rule mult_le_mono2)
      moreover have "n < k * Suc (n div k)"
        using "1.prems"(1) dividend_less_times_div[of k n] by (simp add: algebra_simps)
      ultimately show ?thesis by linarith
    qed
    from lo hi False "1.prems" show ?thesis by (simp add: log_floor_step)
  qed
qed

lemma floorlog_log_floor: "2 \<le> k \<Longrightarrow> 0 < n \<Longrightarrow> floorlog k n = Suc (log_floor k n)"
proof (induction k n rule: log_floor.induct)
  case (1 k n)
  show ?case
  proof (cases "n < k")
    case True
    with "1.prems" show ?thesis
      by (subst compute_floorlog) (simp add: log_floor_small floorlog_eq_zero_iff)
  next
    case False
    with "1.prems" have pos: "0 < n div k" by (simp add: div_greater_zero_iff)
    from False "1.prems" have "floorlog k (n div k) = Suc (log_floor k (n div k))"
      by (intro "1.IH") (use pos in auto)
    with False "1.prems" show ?thesis
      by (subst compute_floorlog) (simp add: log_floor_step)
  qed
qed

lemma log_floor_eq:
  assumes "2 \<le> k" and "0 < n"
  shows "int (log_floor k n) = \<lfloor>ln (real n) / ln (real k)\<rfloor>"
proof -
  from assms have "floorlog k n = nat \<lfloor>log (real k) (real n)\<rfloor> + 1"
    by (simp add: floorlog_def)
  with floorlog_log_floor[OF assms] have "log_floor k n = nat \<lfloor>log (real k) (real n)\<rfloor>"
    by simp
  moreover have "0 \<le> log (real k) (real n)"
    using assms by (simp add: zero_le_log_cancel_iff)
  ultimately show ?thesis
    by (simp add: log_def)
qed

lemma below_ten: "(d::nat) < 10 \<Longrightarrow> d \<in> {0, 1, 2, 3, 4, 5, 6, 7, 8, 9}"
  by auto

lemma digit_props:
  assumes "d < 10"
  shows "is_digit (digit d)" and "digit_value (digit d) = d"
    and "digit d \<noteq> CHR ''.''" and "digit d \<noteq> CHR '' ''"
  using below_ten[OF assms] by (auto simp: digit_def is_digit_def digit_value_def)

lemma not_digit [simp]: "\<not> is_digit CHR ''.''" "\<not> is_digit CHR '' ''"
  by (simp_all add: is_digit_def)

lemma show_nat_digits: "c \<in> set (show_nat n) \<Longrightarrow> is_digit c"
proof (induction n rule: show_nat.induct)
  case (1 n)
  then show ?case
    by (cases "n < 10") (auto simp: show_nat_small show_nat_step digit_props)
qed

lemma show_nat_nonempty [simp]: "show_nat n \<noteq> []"
  by (cases "n < 10") (simp_all add: show_nat_small show_nat_step)

lemma read_nat_snoc: "read_nat (ds @ [c]) = 10 * read_nat ds + digit_value c"
  by (simp add: read_nat_def)

lemma read_show_nat [simp]: "read_nat (show_nat n) = n"
proof (induction n rule: show_nat.induct)
  case (1 n)
  show ?case
  proof (cases "n < 10")
    case True
    then show ?thesis by (simp add: show_nat_small read_nat_def digit_props)
  next
    case False
    with 1 show ?thesis by (simp add: show_nat_step read_nat_snoc digit_props)
  qed
qed

lemma takeWhile_show_nat [simp]:
  "takeWhile is_digit (show_nat n @ CHR ''.'' # rest) = show_nat n"
  by (simp add: takeWhile_append2 show_nat_digits)

lemma dropWhile_show_nat [simp]:
  "dropWhile is_digit (show_nat n @ CHR ''.'' # rest) = CHR ''.'' # rest"
  by (simp add: dropWhile_append2 show_nat_digits)

lemma takeWhile_show_nat_only [simp]: "takeWhile is_digit (show_nat n) = show_nat n"
  by (simp add: show_nat_digits)

lemma dropWhile_show_nat_only [simp]: "dropWhile is_digit (show_nat n) = []"
  by (simp add: show_nat_digits)

lemma hundredths_split: "100 * (n div 100) + 10 * (n div 10 mod 10) + n mod 10 = (n::nat)"
proof -
  have "n mod 100 = 10 * (n div 10 mod 10) + n mod 10"
    using mod_mult2_eq[of n 10 10] by simp
  with mult_div_mod_eq[of 100 n] show ?thesis by linarith
qed

lemma hundredths_split': "100 * (n div 100) + 10 * (n mod 100 div 10) + n mod 100 mod 10 = (n::nat)"
  using mult_div_mod_eq[of 100 n] mult_div_mod_eq[of 10 "n mod 100"] by linarith

lemma parseFloat_toFixed2: "parseFloat (toFixed2 num den) = Some (round_hundredths num den)"
  by (simp add: parseFloat_def toFixed2_def Let_def digit_props hundredths_split)

lemma parseFloat_number_string: "parseFloat (number_string n) = Some n"
proof -
  have c: "100 * (n div 100) + 10 * (n mod 100 div 10) + n mod 100 mod 10 = n"
    by (rule hundredths_split')
  have a: "n mod 100 = 0 \<Longrightarrow> 100 * (n div 100) = n"
    using c by simp
  have b: "n mod 100 mod 10 = 0 \<Longrightarrow> 100 * (n div 100) + 10 * (n mod 100 div 10) = n"
    using c by simp
  have d: "n mod 100 div 10 < 10" "n mod 100 mod 10 < 10" by simp_all
  show ?thesis
    by (simp add: parseFloat_def number_string_def Let_def digit_props[OF d(1)]
        digit_props[OF d(2)] a b c)
qed

lemma takeWhile_until: "c \<notin> set xs \<Longrightarrow> takeWhile (\<lambda>x. x \<noteq> c) (xs @ c # ys) = xs"
  by (induction xs) auto

lemma dropWhile_until: "c \<notin> set xs \<Longrightarrow> dropWhile (\<lambda>x. x \<noteq> c) (xs @ c # ys) = c # ys"
  by (induction xs) auto

lemma dropWhile_absent: "c \<notin> set xs \<Longrightarrow> dropWhile (\<lambda>x. x \<noteq> c) xs = []"
  by (induction xs) auto

lemma no_space_show_nat: "CHR '' '' \<notin> set (show_nat n)"
  using show_nat_digits[of "CHR '' ''" n] by auto

lemma no_point_show_nat: "CHR ''.'' \<notin> set (show_nat n)"
  using show_nat_digits[of "CHR ''.''" n] by auto

lemma no_space_number_string: "CHR '' '' \<notin> set (number_string n)"
proof -
  have d: "n mod 100 div 10 < 10" "n mod 100 mod 10 < 10" by simp_all
  show ?thesis
    using digit_props(4)[OF d(1)] digit_props(4)[OF d(2)]
    by (auto simp: number_string_def Let_def no_space_show_nat)
qed

lemma numeric_part_number_string: "numeric_part (number_string n @ CHR '' '' # u) = number_string n"
  by (simp add: numeric_part_def takeWhile_until no_space_number_string)

lemma fraction_digits_number_string:
  "fraction_digits (number_string n) =
     (if n mod 100 = 0 then 0 else if n mod 10 = 0 then 1 else 2)"
proof -
  have whole: "dropWhile (\<lambda>c. c \<noteq> CHR ''.'') (show_nat q) = []" for q
    by (simp add: dropWhile_absent no_point_show_nat)
  have point: "dropWhile (\<lambda>c. c \<noteq> CHR ''.'') (show_nat q @ CHR ''.'' # ds) = CHR ''.'' # ds" for q ds
    by (simp add: dropWhile_until no_point_show_nat)
  have m: "n mod 100 mod 10 = n mod 10" by (simp add: mod_mod_cancel)
  show ?thesis
    by (simp add: fraction_digits_def number_string_def Let_def whole point m)
qed

lemma round_hundredths_bounds:
  assumes "0 < den"
  shows "2 * den * round_hundredths num den \<le> 200 * num + den"
    and "200 * num + den < 2 * den * (round_hundredths num den + 1)"
proof -
  show "2 * den * round_hundredths num den \<le> 200 * num + den"
    by (simp add: round_hundredths_def)
  have "200 * num + den < 2 * den * Suc ((200 * num + den) div (2 * den))"
    using assms dividend_less_times_div[of "2 * den" "200 * num + den"] by simp
  then show "200 * num + den < 2 * den * (round_hundredths num den + 1)"
    by (simp add: round_hundredths_def)
qed

lemma size_string_eq:
  "size_string k i b =
     number_string (round_hundredths b (k ^ i)) @ CHR '' '' # string_of (at_index sizes i)"
  by (simp add: size_string_def parseFloat_toFixed2 number_to_string_def)

lemma formatFileSize_pos:
  assumes "0 < b"
  shows "formatFileSize b = size_string 1024 (log_floor 1024 b) b"
  using assms by (simp add: formatFileSize_def Let_def)

subsection \<open>File sizes\<close>

text \<open>
  Units up to terabytes: \<open>formatFileSize(0)\<close> is \<open>0 Bytes\<close>, and for a positive byte
  count below \<open>1024^5\<close> the result is the number, a space and the unit \<open>sizes[i]\<close>,
  one of Bytes, KB, MB, GB and TB, for \<open>i\<close> the floor of the logarithm of the count to
  base 1024.
\<close>

theorem formatFileSize_unit:
  assumes "0 < b" and "b < 1024 ^ 5"
  shows "formatFileSize 0 = ''0 Bytes'' \<and>
         int (log_floor 1024 b) = \<lfloor>ln (real b) / ln 1024\<rfloor> \<and>
         log_floor 1024 b < length sizes \<and>
         formatFileSize b =
           number_string (round_hundredths b (1024 ^ log_floor 1024 b)) @ '' '' @
           sizes ! log_floor 1024 b \<and>
         sizes ! log_floor 1024 b \<in> {''Bytes'', ''KB'', ''MB'', ''GB'', ''TB''}"
proof -
  let ?i = "log_floor 1024 b"
  have "(1024::nat) ^ ?i \<le> b"
    using log_floor_bounds[of 1024 b] assms(1) by simp
  from this assms(2) have "(1024::nat) ^ ?i < 1024 ^ 5" by (rule le_less_trans)
  then have i: "?i < 5" by (rule power_less_imp_less_exp[rotated]) simp
  then have "?i = 0 \<or> ?i = 1 \<or> ?i = 2 \<or> ?i = 3 \<or> ?i = 4" by arith
  then have unit: "sizes ! ?i \<in> {''Bytes'', ''KB'', ''MB'', ''GB'', ''TB''}"
    by (auto simp: sizes_def)
  have lg: "int ?i = \<lfloor>ln (real b) / ln 1024\<rfloor>"
    using log_floor_eq[of 1024 b] assms(1) by simp
  have zero: "formatFileSize 0 = ''0 Bytes''"
    by (simp add: formatFileSize_def)
  have len: "?i < length sizes"
    using i by (simp add: sizes_def)
  then have "formatFileSize b =
      number_string (round_hundredths b (1024 ^ ?i)) @ '' '' @ sizes ! ?i"
    using formatFileSize_pos[OF assms(1)]
    by (simp add: size_string_eq at_index_def string_of_def)
  with zero lg len unit show ?thesis by blast
qed

theorem formatFileSize_unit_witness:
  "formatFileSize 1536 = ''1.5 KB'' \<and> log_floor 1024 1536 = 1 \<and>
   \<lfloor>ln (real 1536) / ln 1024\<rfloor> = 1"
proof -
  have h: "(0::nat) < 1536" "(1536::nat) < 1024 ^ 5" by simp_all
  have i: "log_floor 1024 1536 = 1" by (simp add: log_floor_small log_floor_step)
  have n: "number_string 150 = ''1.5''"
    by (simp add: number_string_def show_nat_small digit_def)
  from formatFileSize_unit[OF h] show ?thesis
    by (simp add: i n round_hundredths_def sizes_def)
qed

text \<open>
  C1 asks for a result that ends in one of the five units for every byte count. From
  \<open>1024^5\<close> bytes on the index \<open>i\<close> is 5 or more, \<open>sizes[i]\<close> is \<open>undefined\<close>, and the
  result ends in that word instead of a unit: so for one pebibyte and for four.
\<close>

theorem formatFileSize_beyond_TB:
  "formatFileSize (1024 ^ 5) = ''1 undefined'' \<and>
   formatFileSize 4503599627370496 = ''4 undefined''"
proof -
  have a: "log_floor 1024 1125899906842624 = 5"
    by (simp add: log_floor_small log_floor_step)
  have b: "log_floor 1024 4503599627370496 = 5"
    by (simp add: log_floor_small log_floor_step)
  have c: "(1024::nat) ^ 5 = 1125899906842624" by simp
  have one: "parseFloat (toFixed2 1125899906842624 1125899906842624) = Some 100"
    by (simp add: parseFloat_toFixed2 round_hundredths_def)
  have four: "parseFloat (toFixed2 4503599627370496 1125899906842624) = Some 400"
    by (simp add: parseFloat_toFixed2 round_hundredths_def)
  show ?thesis
    unfolding c
    by (simp add: formatFileSize_def size_string_def a b c one four number_to_string_def
        number_string_def show_nat_small digit_def at_index_def sizes_def string_of_def)
qed

text \<open>
  C2, as the code has it. For every positive byte count the result is the return
  expression at the index \<open>i\<close> computed from the logarithms, and at every index the
  numeric part of that expression denotes \<open>b / 1024^i\<close> rounded to hundredths (the
  nearest one, the larger of two equally near), written without trailing zeros: two
  digits after the decimal point when the hundredths digit is not 0, one when only the
  tenths digit is not 0, and neither a digit nor a decimal point when the rounded value
  is whole.
\<close>

theorem formatFileSize_two_decimals:
  assumes "0 < b"
  shows "formatFileSize b = size_string 1024 (log_floor 1024 b) b \<and>
         parseFloat (numeric_part (size_string 1024 i b)) = Some (round_hundredths b (1024 ^ i)) \<and>
         2 * 1024 ^ i * round_hundredths b (1024 ^ i) \<le> 200 * b + 1024 ^ i \<and>
         200 * b + 1024 ^ i < 2 * 1024 ^ i * (round_hundredths b (1024 ^ i) + 1) \<and>
         fraction_digits (numeric_part (size_string 1024 i b)) =
           (if round_hundredths b (1024 ^ i) mod 100 = 0 then 0
            else if round_hundredths b (1024 ^ i) mod 10 = 0 then 1 else 2) \<and>
         fraction_digits (numeric_part (size_string 1024 i b)) \<le> 2"
proof -
  let ?d = "(1024::nat) ^ i"
  let ?n = "round_hundredths b ?d"
  have np: "numeric_part (size_string 1024 i b) = number_string ?n"
    by (simp add: size_string_eq numeric_part_number_string)
  have d: "0 < ?d" by simp
  note r = round_hundredths_bounds[OF d, of b]
  have f: "fraction_digits (number_string ?n) =
      (if ?n mod 100 = 0 then 0 else if ?n mod 10 = 0 then 1 else 2)"
    by (rule fraction_digits_number_string)
  then have "fraction_digits (number_string ?n) \<le> 2" by simp
  with r f formatFileSize_pos[OF assms] show ?thesis
    unfolding np by (simp add: parseFloat_number_string)
qed

theorem formatFileSize_two_decimals_witness:
  "formatFileSize 1300000 = size_string 1024 2 1300000 \<and>
   numeric_part (formatFileSize 1300000) = ''1.24'' \<and>
   parseFloat ''1.24'' = Some 124 \<and>
   round_hundredths 1300000 (1024 ^ 2) = 124 \<and>
   fraction_digits (numeric_part (formatFileSize 1300000)) = 2"
proof -
  have h: "(0::nat) < 1300000" by simp
  have i: "log_floor 1024 1300000 = 2" by (simp add: log_floor_small log_floor_step)
  have r: "round_hundredths 1300000 1048576 = 124" by (simp add: round_hundredths_def)
  have n: "number_string 124 = ''1.24''"
    by (simp add: number_string_def show_nat_small digit_def)
  have s: "numeric_part (size_string 1024 2 1300000) = ''1.24''"
    by (simp add: size_string_eq r n numeric_part_def)
  from formatFileSize_two_decimals[OF h, of 2] show ?thesis
    by (simp add: i s r)
qed

text \<open>
  The numeric part does not always have two digits after the decimal point, as C2 is
  worded: one kibibyte is shown as \<open>1 KB\<close>, and one and a half as \<open>1.5 KB\<close>.
\<close>

theorem formatFileSize_whole_kilobyte:
  "formatFileSize 1024 = ''1 KB'' \<and>
   fraction_digits (numeric_part (formatFileSize 1024)) = 0 \<and>
   formatFileSize 1536 = ''1.5 KB'' \<and>
   fraction_digits (numeric_part (formatFileSize 1536)) = 1"
proof -
  have i: "log_floor 1024 1024 = 1" "log_floor 1024 1536 = 1"
    by (simp_all add: log_floor_small log_floor_step)
  have r: "round_hundredths 1024 1024 = 100" "round_hundredths 1536 1024 = 150"
    by (simp_all add: round_hundredths_def)
  have n: "number_string 100 = ''1''" "number_string 150 = ''1.5''"
    by (simp_all add: number_string_def show_nat_small digit_def)
  have a: "formatFileSize 1024 = ''1 KB''" and b: "formatFileSize 1536 = ''1.5 KB''"
    by (simp_all add: formatFileSize_pos size_string_eq i r n at_index_def sizes_def string_of_def)
  show ?thesis
    unfolding a b by (simp add: numeric_part_def fraction_digits_def)
qed

subsection \<open>Debounce and throttle\<close>

lemma debounce_run_none:
  "next_due T (dtimers s) = None \<Longrightarrow> debounce_run_timers T s = s\<lparr>dtimers := tick T (dtimers s)\<rparr>"
  by (subst debounce_run_timers.simps) simp

lemma debounce_run_some:
  "next_due T (dtimers s) = Some (i, due, args) \<Longrightarrow>
   debounce_run_timers T s =
     debounce_run_timers T (later args (s\<lparr>dtimers := fire i due (dtimers s)\<rparr>))"
  by (subst debounce_run_timers.simps) simp

lemma armed_first:
  assumes "now \<le> t"
  shows "armed wait t a (executedFunction wait a (debounce_run_timers t (debounce now)))"
proof -
  have "next_due t (dtimers (debounce now :: 'a debounce_state)) = None"
    by (simp add: debounce_def next_due_def)
  then show ?thesis
    using assms
    by (simp add: debounce_run_none armed_def executedFunction_def debounce_def tick_def
        clearTimeout_def setTimeout_def max_def)
qed

lemma armed_again:
  assumes "armed wait t a s" and "t \<le> t'" and "t' < t + wait"
  shows "armed wait t' a' (executedFunction wait a' (debounce_run_timers t' s))"
proof -
  from assms(1) obtain h where h: "pending (dtimers s) = [(h, t + wait, a)]" "timeout s = Some h"
    and c: "clock (dtimers s) = t" and d: "dcalls s = []"
    by (auto simp: armed_def)
  have "next_due t' (dtimers s) = None"
    using h assms(3) by (simp add: next_due_def)
  then show ?thesis
    using h c d assms(2)
    by (simp add: debounce_run_none armed_def executedFunction_def tick_def
        clearTimeout_def setTimeout_def max_def)
qed

lemma armed_calls:
  assumes "armed wait t a s" and "burst wait (t # map fst cs)"
  shows "armed wait (fst (last ((t, a) # cs))) (snd (last ((t, a) # cs))) (debounce_calls wait cs s)"
  using assms
proof (induction cs arbitrary: t a s)
  case Nil
  then show ?case by simp
next
  case (Cons c cs)
  obtain t' a' where c: "c = (t', a')" by (cases c) auto
  from Cons.prems(2) c have "t \<le> t'" "t' < t + wait" "burst wait (t' # map fst cs)"
    by simp_all
  with armed_again[OF Cons.prems(1), of t' a'] Cons.IH[of t' a']
  show ?case by (simp add: c)
qed

lemma armed_fires:
  assumes "armed wait t a s"
  shows "dcalls (debounce_run_timers T s) = (if t + wait \<le> T then [(t + wait, a)] else [])"
proof -
  from assms obtain h where h: "pending (dtimers s) = [(h, t + wait, a)]" "timeout s = Some h"
    and c: "clock (dtimers s) = t" and d: "dcalls s = []"
    by (auto simp: armed_def)
  show ?thesis
  proof (cases "t + wait \<le> T")
    case True
    then have n: "next_due T (dtimers s) = Some (h, t + wait, a)"
      using h by (simp add: next_due_def)
    let ?s1 = "later a (s\<lparr>dtimers := fire h (t + wait) (dtimers s)\<rparr>)"
    have p: "pending (dtimers ?s1) = []" and l: "dcalls ?s1 = [(t + wait, a)]"
      using h c d by (simp_all add: later_def fire_def clearTimeout_def max_def)
    then have "next_due T (dtimers ?s1) = None" by (simp add: next_due_def)
    with True l show ?thesis
      by (simp add: debounce_run_some[OF n] debounce_run_none)
  next
    case False
    then have "next_due T (dtimers s) = None"
      using h by (simp add: next_due_def)
    with False d show ?thesis by (simp add: debounce_run_none)
  qed
qed

text \<open>
  C3. The calls \<open>cs\<close> of the debounced wrapper are given with their times and
  arguments, and the invocations of \<open>func\<close> are read at a time \<open>T\<close>. When the wrapper
  is called one or more times, each call less than \<open>wait\<close> after the one before,
  \<open>func\<close> has not been invoked at any time before \<open>wait\<close> has passed since the last
  call, and from then on it has been invoked exactly once: at \<open>wait\<close> after the last
  call, with the arguments of the last call.
\<close>

theorem debounce_burst_once:
  assumes "cs \<noteq> []" and "burst wait (map fst cs)" and "now \<le> fst (hd cs)"
  shows "dcalls (debounce_run_timers T (debounce_calls wait cs (debounce now))) =
           (if fst (last cs) + wait \<le> T then [(fst (last cs) + wait, snd (last cs))] else [])"
proof -
  from assms(1) obtain t a cs' where cs: "cs = (t, a) # cs'"
    by (cases cs) auto
  from assms(3) cs have "now \<le> t" by simp
  then have "armed wait t a (executedFunction wait a (debounce_run_timers t (debounce now)))"
    by (rule armed_first)
  moreover from assms(2) cs have "burst wait (t # map fst cs')" by simp
  ultimately have "armed wait (fst (last cs)) (snd (last cs)) (debounce_calls wait cs (debounce now))"
    unfolding cs using armed_calls by fastforce
  then show ?thesis by (rule armed_fires)
qed

theorem debounce_burst_once_witness:
  "dcalls (debounce_run_timers 449 (debounce_calls 300 [(0, ''a''), (100, ''ab''), (150, ''abc'')] (debounce 0))) = [] \<and>
   dcalls (debounce_run_timers 450 (debounce_calls 300 [(0, ''a''), (100, ''ab''), (150, ''abc'')] (debounce 0))) =
     [(450, ''abc'')]"
proof -
  have h: "[(0, ''a''), (100, ''ab''), (150::nat, ''abc'')] \<noteq> []"
    "burst 300 (map fst [(0, ''a''), (100, ''ab''), (150::nat, ''abc'')])"
    "0 \<le> fst (hd [(0, ''a''), (100, ''ab''), (150::nat, ''abc'')])"
    by simp_all
  from debounce_burst_once[OF h, of 449] debounce_burst_once[OF h, of 450]
  show ?thesis by simp
qed

lemma throttle_run_none:
  "next_due T (ttimers s) = None \<Longrightarrow> throttle_run_timers T s = s\<lparr>ttimers := tick T (ttimers s)\<rparr>"
  by (subst throttle_run_timers.simps) simp

lemma throttle_run_some:
  "next_due T (ttimers s) = Some (i, due, u) \<Longrightarrow>
   throttle_run_timers T s =
     throttle_run_timers T (release (s\<lparr>ttimers := fire i due (ttimers s)\<rparr>))"
  by (subst throttle_run_timers.simps) simp

lemma blocked_first:
  assumes "now \<le> t0"
  shows "tcalls (throttled limit a0 (throttle_run_timers t0 (throttle now))) = [(t0, a0)]"
    and "blocked (t0 + limit) (t0 + limit) (throttled limit a0 (throttle_run_timers t0 (throttle now)))"
proof -
  have "next_due t0 (ttimers (throttle now :: 'a throttle_state)) = None"
    by (simp add: throttle_def next_due_def)
  then show "tcalls (throttled limit a0 (throttle_run_timers t0 (throttle now))) = [(t0, a0)]"
    and "blocked (t0 + limit) (t0 + limit) (throttled limit a0 (throttle_run_timers t0 (throttle now)))"
    using assms
    by (simp_all add: throttle_run_none blocked_def throttled_def throttle_def tick_def
        setTimeout_def max_def)
qed

lemma blocked_drops:
  assumes "blocked due B s" and "t < due" and "due \<le> B"
  shows "blocked due B (throttled limit a (throttle_run_timers t s))"
    and "tcalls (throttled limit a (throttle_run_timers t s)) = tcalls s"
proof -
  from assms(1) obtain h where h: "pending (ttimers s) = [(h, due, ())]"
    and i: "inThrottle s" and c: "clock (ttimers s) \<le> B"
    by (auto simp: blocked_def)
  have "next_due t (ttimers s) = None"
    using h assms(2) by (simp add: next_due_def)
  then show "blocked due B (throttled limit a (throttle_run_timers t s))"
    and "tcalls (throttled limit a (throttle_run_timers t s)) = tcalls s"
    using h i c assms(2,3)
    by (simp_all add: throttle_run_none blocked_def throttled_def tick_def)
qed

lemma blocked_calls:
  assumes "blocked due B s" and "\<forall>c\<in>set mid. fst c < due" and "due \<le> B"
  shows "blocked due B (throttle_calls limit mid s) \<and> tcalls (throttle_calls limit mid s) = tcalls s"
  using assms
proof (induction mid arbitrary: s)
  case Nil
  then show ?case by simp
next
  case (Cons c mid)
  obtain t a where c: "c = (t, a)" by (cases c) auto
  with Cons.prems have t: "t < due" by simp
  from blocked_drops[OF Cons.prems(1) t Cons.prems(3), of limit a] Cons.IH Cons.prems(2,3)
  show ?case by (simp add: c)
qed

lemma blocked_released:
  assumes "blocked due B s" and "due \<le> t1" and "B \<le> t1"
  shows "tcalls (throttled limit a1 (throttle_run_timers t1 s)) = tcalls s @ [(t1, a1)]"
proof -
  from assms(1) obtain h where h: "pending (ttimers s) = [(h, due, ())]"
    and c: "clock (ttimers s) \<le> B"
    by (auto simp: blocked_def)
  have n: "next_due t1 (ttimers s) = Some (h, due, ())"
    using h assms(2) by (simp add: next_due_def)
  let ?s1 = "release (s\<lparr>ttimers := fire h due (ttimers s)\<rparr>)"
  have p: "pending (ttimers ?s1) = []" by (simp add: release_def fire_def h)
  then have "next_due t1 (ttimers ?s1) = None" by (simp add: next_due_def)
  then have "throttle_run_timers t1 s = ?s1\<lparr>ttimers := tick t1 (ttimers ?s1)\<rparr>"
    by (simp add: throttle_run_some[OF n] throttle_run_none)
  then show ?thesis
    using c assms(2,3)
    by (simp add: throttled_def release_def fire_def tick_def setTimeout_def max_def)
qed

lemma throttle_calls_append:
  "throttle_calls limit (xs @ ys) s = throttle_calls limit ys (throttle_calls limit xs s)"
  by (induction xs arbitrary: s) auto

text \<open>
  C4. The first call of the throttled wrapper, at \<open>t0\<close>, invokes \<open>func\<close> at once, with
  the arguments of that call. The calls \<open>mid\<close> that follow before \<open>limit\<close> has passed
  since then are dropped, however many they are. The first call made when \<open>limit\<close>
  has passed, at \<open>t1\<close>, invokes \<open>func\<close> at once again, with its own arguments. (The
  timer due at \<open>t0 + limit\<close> has run before a call made at that very time.)
\<close>

theorem throttle_first_then_blackout:
  assumes "now \<le> t0" and "\<forall>c\<in>set mid. t0 \<le> fst c \<and> fst c < t0 + limit" and "t0 + limit \<le> t1"
  shows "tcalls (throttle_calls limit [(t0, a0)] (throttle now)) = [(t0, a0)] \<and>
         tcalls (throttle_calls limit ((t0, a0) # mid) (throttle now)) = [(t0, a0)] \<and>
         tcalls (throttle_calls limit ((t0, a0) # mid @ [(t1, a1)]) (throttle now)) =
           [(t0, a0), (t1, a1)]"
proof -
  let ?s0 = "throttled limit a0 (throttle_run_timers t0 (throttle now))"
  note first = blocked_first[OF assms(1), of limit a0]
  from assms(2) have "\<forall>c\<in>set mid. fst c < t0 + limit" by simp
  from blocked_calls[OF first(2) this, of limit]
  have mid: "blocked (t0 + limit) (t0 + limit) (throttle_calls limit mid ?s0)"
    "tcalls (throttle_calls limit mid ?s0) = [(t0, a0)]"
    using first(1) by simp_all
  from blocked_released[OF mid(1) assms(3) assms(3), of limit a1]
  have "tcalls (throttle_calls limit (mid @ [(t1, a1)]) ?s0) = [(t0, a0), (t1, a1)]"
    by (simp add: throttle_calls_append mid(2))
  with first(1) mid(2) show ?thesis by simp
qed

theorem throttle_first_then_blackout_witness:
  "tcalls (throttle_calls 200 [(10, ''a'')] (throttle 0)) = [(10, ''a'')] \<and>
   tcalls (throttle_calls 200 [(10, ''a''), (50, ''b''), (209, ''c'')] (throttle 0)) = [(10, ''a'')] \<and>
   tcalls (throttle_calls 200 [(10, ''a''), (50, ''b''), (209, ''c''), (210, ''d'')] (throttle 0)) =
     [(10, ''a''), (210, ''d'')]"
proof -
  have h: "(0::nat) \<le> 10"
    "\<forall>c\<in>set [(50, ''b''), (209::nat, ''c'')]. 10 \<le> fst c \<and> fst c < 10 + 200"
    "(10::nat) + 200 \<le> 210"
    by simp_all
  from throttle_first_then_blackout[OF h, of "''a''" "''d''"]
  show ?thesis by simp
qed

subsection \<open>Lemmas on the document\<close>

lemma parentNode_remove:
  "parentNode (elements (remove m q) n) = (if n = m then None else parentNode (elements q n))"
  by (auto simp: remove_def elements_update split: option.splits)

lemma childNodes_remove:
  "childNodes (elements (remove m q) c) =
     (if parentNode (elements q m) = Some c then removeAll m (childNodes (elements q c))
      else childNodes (elements q c))"
  by (auto simp: remove_def elements_update split: option.splits)

lemma parentNode_alertTimeout:
  "parentNode (elements (alertTimeout m q) n) = (if n = m then None else parentNode (elements q n))"
  by (auto simp: alertTimeout_def parentNode_remove)

lemma childNodes_alertTimeout:
  "childNodes (elements (alertTimeout m q) c) =
     (if parentNode (elements q m) = Some c then removeAll m (childNodes (elements q c))
      else childNodes (elements q c))"
  by (auto simp: alertTimeout_def childNodes_remove)

lemma linked_alertTimeout: "linked n q \<Longrightarrow> linked n (alertTimeout m q)"
  by (auto simp: linked_def parentNode_alertTimeout childNodes_alertTimeout split: if_splits)

lemma run_stays_detached:
  "parentNode (elements q n) = None \<Longrightarrow> parentNode (elements (page_run_timers T q) n) = None"
proof (induction T q rule: page_run_timers.induct)
  case (1 T p)
  show ?case
  proof (cases "next_due T (ptimers p)")
    case None
    with 1 show ?thesis by (subst page_run_timers.simps) simp
  next
    case (Some x)
    obtain i due m where x: "x = (i, due, m)" by (cases x) auto
    have "parentNode (elements (alertTimeout m (p\<lparr>ptimers := fire i due (ptimers p)\<rparr>)) n) = None"
      using "1.prems" by (simp add: parentNode_alertTimeout)
    from "1.IH"[OF Some x[symmetric] refl this] show ?thesis
      by (subst page_run_timers.simps) (simp add: Some x)
  qed
qed

lemma run_linked: "linked n q \<Longrightarrow> linked n (page_run_timers T q)"
proof (induction T q rule: page_run_timers.induct)
  case (1 T p)
  show ?case
  proof (cases "next_due T (ptimers p)")
    case None
    with 1 show ?thesis by (subst page_run_timers.simps) (simp add: linked_def)
  next
    case (Some x)
    obtain i due m where x: "x = (i, due, m)" by (cases x) auto
    have "linked n (alertTimeout m (p\<lparr>ptimers := fire i due (ptimers p)\<rparr>))"
      using "1.prems" by (intro linked_alertTimeout) (simp add: linked_def)
    from "1.IH"[OF Some x[symmetric] refl this] show ?thesis
      by (subst page_run_timers.simps) (simp add: Some x)
  qed
qed

lemma run_fires:
  assumes "(i, due, n) \<in> set (pending (ptimers q))" and "due \<le> T"
    and "\<forall>x\<in>set (pending (ptimers q)). fst x = i \<longrightarrow> x = (i, due, n)"
  shows "parentNode (elements (page_run_timers T q) n) = None"
  using assms
proof (induction T q rule: page_run_timers.induct)
  case (1 T p)
  obtain x where Some: "next_due T (ptimers p) = Some x"
    using next_due_some[OF "1.prems"(1), of T] "1.prems"(2) by auto
  obtain j d m where x: "x = (j, d, m)" by (cases x) auto
  let ?p1 = "alertTimeout m (p\<lparr>ptimers := fire j d (ptimers p)\<rparr>)"
  have xin: "(j, d, m) \<in> set (pending (ptimers p))"
    using next_due_in[OF Some] x by simp
  show ?case
  proof (cases "j = i")
    case True
    with xin "1.prems"(3) have "m = n" by auto
    then have "parentNode (elements ?p1 n) = None"
      by (simp add: parentNode_alertTimeout)
    then have "parentNode (elements (page_run_timers T ?p1) n) = None"
      by (rule run_stays_detached)
    then show ?thesis
      by (subst page_run_timers.simps) (simp add: Some x)
  next
    case False
    have a: "(i, due, n) \<in> set (pending (ptimers ?p1))"
      using "1.prems"(1) False by (simp add: fire_def)
    have b: "\<forall>x\<in>set (pending (ptimers ?p1)). fst x = i \<longrightarrow> x = (i, due, n)"
      using "1.prems"(3) by (simp add: fire_def)
    from "1.IH"[OF Some x[symmetric] refl a "1.prems"(2) b] show ?thesis
      by (subst page_run_timers.simps) (simp add: Some x)
  qed
qed

lemma run_not_before:
  assumes "\<forall>x\<in>set (pending (ptimers q)). snd (snd x) = n \<longrightarrow> T < fst (snd x)"
  shows "parentNode (elements (page_run_timers T q) n) = parentNode (elements q n) \<and>
         (\<forall>c rest. childNodes (elements q c) = n # rest \<longrightarrow>
            (\<exists>rest'. childNodes (elements (page_run_timers T q) c) = n # rest'))"
  using assms
proof (induction T q rule: page_run_timers.induct)
  case (1 T p)
  show ?case
  proof (cases "next_due T (ptimers p)")
    case None
    then show ?thesis by (subst page_run_timers.simps, subst (2) page_run_timers.simps) simp
  next
    case (Some x)
    obtain j d m where x: "x = (j, d, m)" by (cases x) auto
    let ?p1 = "alertTimeout m (p\<lparr>ptimers := fire j d (ptimers p)\<rparr>)"
    have xin: "(j, d, m) \<in> set (pending (ptimers p))" and "d \<le> T"
      using next_due_in[OF Some] x by simp_all
    with "1.prems" have mn: "m \<noteq> n" by fastforce
    have a: "\<forall>x\<in>set (pending (ptimers ?p1)). snd (snd x) = n \<longrightarrow> T < fst (snd x)"
      using "1.prems" by (simp add: fire_def)
    have run: "page_run_timers T p = page_run_timers T ?p1"
      by (subst page_run_timers.simps) (simp add: Some x)
    have par: "parentNode (elements ?p1 n) = parentNode (elements p n)"
      using mn by (simp add: parentNode_alertTimeout)
    have kids: "\<forall>c rest. childNodes (elements p c) = n # rest \<longrightarrow>
            (\<exists>rest'. childNodes (elements ?p1 c) = n # rest')"
      using mn by (auto simp: childNodes_alertTimeout)
    from "1.IH"[OF Some x[symmetric] refl a] par kids show ?thesis
      unfolding run by metis
  qed
qed

lemma showAlert_into:
  assumes "c \<noteq> nextNode p"
  shows "showAlert qs message type (Some c) p = Inr (shown message type c p)"
  using assms
  by (simp add: showAlert_def createElement_def insertFirst_def remove_def update_def
      setTimeout_def blank_def shown_def fun_upd_twist)

lemma showAlert_default:
  assumes "qs (elements p) ''.container'' = Some c" and "c \<noteq> nextNode p"
  shows "showAlert qs message type None p = Inr (shown message type c p)"
  using assms
  by (simp add: showAlert_def createElement_def insertFirst_def remove_def update_def
      setTimeout_def blank_def shown_def fun_upd_twist)

lemma showAlert_null_target:
  "qs (elements p) ''.container'' = None \<Longrightarrow> showAlert qs message type None p = Inl TypeError"
  by (simp add: showAlert_def createElement_def Let_def split: prod.splits)

text \<open>Well-formedness is kept by \<open>showAlert\<close> and by the passing of time.\<close>

lemma nextNode_alertTimeout [simp]: "nextNode (alertTimeout n p) = nextNode p"
  by (simp add: alertTimeout_def remove_def split: option.splits)

lemma well_formed_shown:
  assumes "well_formed p" and "c < nextNode p"
  shows "well_formed (shown message type c p)"
  using assms
  by (auto simp: well_formed_def shown_def blank_def less_Suc_eq split: if_splits)

lemma well_formed_alertTimeout:
  assumes "well_formed p"
  shows "well_formed (alertTimeout n p)"
  using assms
  by (auto simp: well_formed_def childNodes_alertTimeout split: if_splits)

lemma well_formed_run: "well_formed p \<Longrightarrow> well_formed (page_run_timers T p)"
proof (induction T p rule: page_run_timers.induct)
  case (1 T p)
  show ?case
  proof (cases "next_due T (ptimers p)")
    case None
    with 1 show ?thesis
      by (subst page_run_timers.simps) (simp add: well_formed_def tick_def)
  next
    case (Some x)
    obtain i due m where x: "x = (i, due, m)" by (cases x) auto
    have "well_formed (p\<lparr>ptimers := fire i due (ptimers p)\<rparr>)"
      using "1.prems" by (auto simp: well_formed_def fire_def)
    then have "well_formed (alertTimeout m (p\<lparr>ptimers := fire i due (ptimers p)\<rparr>))"
      by (rule well_formed_alertTimeout)
    from "1.IH"[OF Some x[symmetric] refl this] show ?thesis
      by (subst page_run_timers.simps) (simp add: Some x)
  qed
qed

subsection \<open>Alerts\<close>

text \<open>
  C7. For every message, severity and container element of a well-formed page,
  \<open>showAlert\<close> returns normally and creates exactly one element, the banner: it is the
  first child of the container, in front of the children the container had, and carries
  the dismissible alert class for the severity and the message followed by the close
  button; no other element changes. As time passes with the banner left alone, it is
  still the first child of the container at every time before 5000 ms after the call,
  and from 5000 ms on it has no parent and is no child of any element. When the banner
  has already lost its parent (a manual dismissal), the timer's callback returns the page
  as it is, and the banner stays detached whatever other timers run.
\<close>

theorem showAlert_banner_lifecycle:
  assumes "well_formed p" and "c < nextNode p"
  shows "\<exists>p'. showAlert qs message type (Some c) p = Inr p' \<and>
           nextNode p' = Suc (nextNode p) \<and>
           childNodes (elements p' c) = nextNode p # childNodes (elements p c) \<and>
           parentNode (elements p' (nextNode p)) = Some c \<and>
           className (elements p' (nextNode p)) = ''alert alert-'' @ type @ '' alert-dismissible fade show'' \<and>
           innerHTML (elements p' (nextNode p)) = alertMarkup message \<and>
           (\<forall>n. n \<noteq> c \<and> n \<noteq> nextNode p \<longrightarrow> elements p' n = elements p n) \<and>
           (\<forall>T. T < clock (ptimers p) + 5000 \<longrightarrow>
              parentNode (elements (page_run_timers T p') (nextNode p)) = Some c \<and>
              (\<exists>rest. childNodes (elements (page_run_timers T p') c) = nextNode p # rest)) \<and>
           (\<forall>T. clock (ptimers p) + 5000 \<le> T \<longrightarrow>
              parentNode (elements (page_run_timers T p') (nextNode p)) = None \<and>
              (\<forall>c'. nextNode p \<notin> set (childNodes (elements (page_run_timers T p') c')))) \<and>
           (\<forall>q. parentNode (elements q (nextNode p)) = None \<longrightarrow>
              alertTimeout (nextNode p) q = q \<and>
              (\<forall>T. parentNode (elements (page_run_timers T q) (nextNode p)) = None))"
proof -
  let ?b = "nextNode p"
  let ?p' = "shown message type c p"
  let ?i = "nextTimer (ptimers p)"
  let ?due = "clock (ptimers p) + 5000"
  from assms(2) have cb: "c \<noteq> ?b" by simp
  have fresh: "?b \<notin> set (childNodes (elements p c'))" for c'
    using assms(1) by (auto simp: well_formed_def)
  have old: "\<forall>x\<in>set (pending (ptimers p)). fst x < ?i \<and> snd (snd x) < ?b"
    using assms(1) by (simp add: well_formed_def)
  have call: "showAlert qs message type (Some c) p = Inr ?p'"
    using cb by (rule showAlert_into)
  have kids: "childNodes (elements ?p' c) = ?b # childNodes (elements p c)"
    by (simp add: shown_def)
  have par: "parentNode (elements ?p' ?b) = Some c"
    using cb by (simp add: shown_def)
  have cls: "className (elements ?p' ?b) = ''alert alert-'' @ type @ '' alert-dismissible fade show''"
    using cb by (simp add: shown_def alertClass_def)
  have mark: "innerHTML (elements ?p' ?b) = alertMarkup message"
    using cb by (simp add: shown_def)
  have frame: "\<forall>n. n \<noteq> c \<and> n \<noteq> ?b \<longrightarrow> elements ?p' n = elements p n"
    by (simp add: shown_def)
  have pend: "pending (ptimers ?p') = pending (ptimers p) @ [(?i, ?due, ?b)]"
    by (simp add: shown_def)
  have before: "parentNode (elements (page_run_timers T ?p') ?b) = Some c \<and>
      (\<exists>rest. childNodes (elements (page_run_timers T ?p') c) = ?b # rest)" if "T < ?due" for T
  proof -
    have "\<forall>x\<in>set (pending (ptimers ?p')). snd (snd x) = ?b \<longrightarrow> T < fst (snd x)"
      using old that by (auto simp: pend)
    from run_not_before[OF this] par kids show ?thesis by auto
  qed
  have lnk: "linked ?b ?p'"
    using cb fresh by (auto simp: linked_def shown_def blank_def)
  have after: "parentNode (elements (page_run_timers T ?p') ?b) = None \<and>
      (\<forall>c'. ?b \<notin> set (childNodes (elements (page_run_timers T ?p') c')))" if "?due \<le> T" for T
  proof -
    have mine: "(?i, ?due, ?b) \<in> set (pending (ptimers ?p'))" by (simp add: pend)
    have only: "\<forall>x\<in>set (pending (ptimers ?p')). fst x = ?i \<longrightarrow> x = (?i, ?due, ?b)"
      using old by (auto simp: pend)
    have gone: "parentNode (elements (page_run_timers T ?p') ?b) = None"
      by (rule run_fires[OF mine that only])
    from run_linked[OF lnk, of T] gone show ?thesis
      by (auto simp: linked_def)
  qed
  have guard: "\<forall>q. parentNode (elements q ?b) = None \<longrightarrow>
      alertTimeout ?b q = q \<and> (\<forall>T. parentNode (elements (page_run_timers T q) ?b) = None)"
    by (simp add: alertTimeout_def run_stays_detached)
  have cnt: "nextNode ?p' = Suc ?b" by (simp add: shown_def)
  from call cnt kids par cls mark frame before after guard show ?thesis
    by blast
qed

lemma well_formed_examplePage: "well_formed examplePage"
  by (auto simp: well_formed_def examplePage_def blank_def split: if_splits)

theorem showAlert_banner_lifecycle_witness:
  "\<exists>p'. showAlert exampleQuery ''Saved'' ''success'' (Some 0) examplePage = Inr p' \<and>
         childNodes (elements p' 0) = [3, 1, 2] \<and>
         className (elements p' 3) = ''alert alert-success alert-dismissible fade show'' \<and>
         parentNode (elements (page_run_timers 4999 p') 3) = Some 0 \<and>
         parentNode (elements (page_run_timers 5000 p') 3) = None"
proof -
  have c: "0 < nextNode examplePage" by (simp add: examplePage_def)
  from showAlert_banner_lifecycle[OF well_formed_examplePage c, where qs = exampleQuery
      and message = "''Saved''" and type = "''success''"]
  obtain p' where p':
    "showAlert exampleQuery ''Saved'' ''success'' (Some 0) examplePage = Inr p'"
    "childNodes (elements p' 0) = nextNode examplePage # childNodes (elements examplePage 0)"
    "className (elements p' (nextNode examplePage)) = ''alert alert-'' @ ''success'' @ '' alert-dismissible fade show''"
    "\<forall>T. T < clock (ptimers examplePage) + 5000 \<longrightarrow>
       parentNode (elements (page_run_timers T p') (nextNode examplePage)) = Some 0 \<and>
       (\<exists>rest. childNodes (elements (page_run_timers T p') 0) = nextNode examplePage # rest)"
    "\<forall>T. clock (ptimers examplePage) + 5000 \<le> T \<longrightarrow>
       parentNode (elements (page_run_timers T p') (nextNode examplePage)) = None \<and>
       (\<forall>c'. nextNode examplePage \<notin> set (childNodes (elements (page_run_timers T p') c')))"
    by blast
  have n: "nextNode examplePage = 3" and k: "childNodes (elements examplePage 0) = [1, 2]"
    and t: "clock (ptimers examplePage) = 0"
    by (simp_all add: examplePage_def blank_def)
  from p'(4) have "parentNode (elements (page_run_timers 4999 p') 3) = Some 0"
    by (simp add: n t)
  moreover from p'(5) have "parentNode (elements (page_run_timers 5000 p') 3) = None"
    by (simp add: n t)
  ultimately show ?thesis
    using p'(1,2,3) by (auto simp: n k)
qed

text \<open>
  C10. When \<open>showAlert\<close> is called without a container (or with \<open>null\<close>) and the selector
  \<open>.container\<close> matches no element of the document, the call throws: the insertion is
  attempted on \<open>null\<close>, and there is no other container to fall back to.
\<close>

theorem showAlert_no_container:
  assumes "qs (elements p) ''.container'' = None"
  shows "showAlert qs message type None p = Inl TypeError"
  using assms by (simp add: showAlert_def createElement_def Let_def split: prod.splits)

theorem showAlert_no_container_witness:
  "exampleQuery (elements barePage) ''.container'' = None \<and>
   showAlert exampleQuery ''Saved'' ''success'' None barePage = Inl TypeError"
proof -
  have h: "exampleQuery (elements barePage) ''.container'' = None"
    by (simp add: exampleQuery_def barePage_def blank_def)
  from h showAlert_no_container[where qs = exampleQuery and p = barePage, OF h] show ?thesis by simp
qed

subsection \<open>Clipboard\<close>

text \<open>
  C8, as the code has it. In a document whose default container exists (the selector
  \<open>.container\<close> matches an element), for every text: \<open>copyToClipboard\<close> starts exactly
  one write; when the write rejects, the handlers log the error and show exactly one
  banner, of severity error, and start no further write; when it resolves, they log
  nothing and show exactly one banner, of severity success. In both cases the chain
  ends fulfilled.
\<close>

theorem copyToClipboard_notifies:
  assumes "qs (elements p) ''.container'' = Some c" and "c < nextNode p"
  shows "written (copyToClipboard text p) = written p @ [text] \<and>
         elements (copyToClipboard text p) = elements p \<and>
         console (copyToClipboard text p) = console p \<and>
         (\<exists>p'. clipboardSettled qs (Some err) p = (None, p') \<and>
            console p' = console p @ [(''Could not copy text: '', err)] \<and>
            written p' = written p \<and>
            nextNode p' = Suc (nextNode p) \<and>
            childNodes (elements p' c) = nextNode p # childNodes (elements p c) \<and>
            className (elements p' (nextNode p)) = ''alert alert-error alert-dismissible fade show'' \<and>
            innerHTML (elements p' (nextNode p)) = alertMarkup ''Failed to copy to clipboard'') \<and>
         (\<exists>p'. clipboardSettled qs None p = (None, p') \<and>
            console p' = console p \<and>
            written p' = written p \<and>
            nextNode p' = Suc (nextNode p) \<and>
            childNodes (elements p' c) = nextNode p # childNodes (elements p c) \<and>
            className (elements p' (nextNode p)) = ''alert alert-success alert-dismissible fade show'' \<and>
            innerHTML (elements p' (nextNode p)) = alertMarkup ''Copied to clipboard!'')"
proof -
  from assms(2) have cb: "c \<noteq> nextNode p" by simp
  let ?p1 = "p\<lparr>console := console p @ [(''Could not copy text: '', err)]\<rparr>"
  have q1: "qs (elements ?p1) ''.container'' = Some c" and cb1: "c \<noteq> nextNode ?p1"
    using assms(1) cb by simp_all
  have rej: "clipboardSettled qs (Some err) p =
      (None, shown ''Failed to copy to clipboard'' ''error'' c ?p1)"
    using q1 cb1 by (simp add: clipboardSettled_def onCopyFailed_def showAlert_default)
  have res: "clipboardSettled qs None p = (None, shown ''Copied to clipboard!'' ''success'' c p)"
    using assms(1) cb by (simp add: clipboardSettled_def onCopied_def showAlert_default)
  have start: "written (copyToClipboard text p) = written p @ [text] \<and>
         elements (copyToClipboard text p) = elements p \<and>
         console (copyToClipboard text p) = console p"
    by (simp add: copyToClipboard_def)
  have a: "\<exists>p'. clipboardSettled qs (Some err) p = (None, p') \<and>
            console p' = console p @ [(''Could not copy text: '', err)] \<and>
            written p' = written p \<and>
            nextNode p' = Suc (nextNode p) \<and>
            childNodes (elements p' c) = nextNode p # childNodes (elements p c) \<and>
            className (elements p' (nextNode p)) = ''alert alert-error alert-dismissible fade show'' \<and>
            innerHTML (elements p' (nextNode p)) = alertMarkup ''Failed to copy to clipboard''"
    unfolding rej using cb by (simp add: shown_def alertClass_def)
  have b: "\<exists>p'. clipboardSettled qs None p = (None, p') \<and>
            console p' = console p \<and>
            written p' = written p \<and>
            nextNode p' = Suc (nextNode p) \<and>
            childNodes (elements p' c) = nextNode p # childNodes (elements p c) \<and>
            className (elements p' (nextNode p)) = ''alert alert-success alert-dismissible fade show'' \<and>
            innerHTML (elements p' (nextNode p)) = alertMarkup ''Copied to clipboard!''"
    unfolding res using cb by (simp add: shown_def alertClass_def)
  from start a b show ?thesis by blast
qed

theorem copyToClipboard_notifies_witness:
  "exampleQuery (elements examplePage) ''.container'' = Some 0 \<and>
   (\<exists>p'. clipboardSettled exampleQuery (Some NotAllowedError) examplePage = (None, p') \<and>
      console p' = [(''Could not copy text: '', NotAllowedError)] \<and>
      childNodes (elements p' 0) = [3, 1, 2] \<and>
      className (elements p' 3) = ''alert alert-error alert-dismissible fade show'') \<and>
   (\<exists>p'. clipboardSettled exampleQuery None examplePage = (None, p') \<and>
      console p' = [] \<and>
      childNodes (elements p' 0) = [3, 1, 2] \<and>
      className (elements p' 3) = ''alert alert-success alert-dismissible fade show'')"
proof -
  have h: "exampleQuery (elements examplePage) ''.container'' = Some 0"
    by (simp add: exampleQuery_def examplePage_def blank_def)
  have c: "0 < nextNode examplePage" by (simp add: examplePage_def)
  have n: "nextNode examplePage = 3" "childNodes (elements examplePage 0) = [1, 2]"
    "console examplePage = []"
    by (simp_all add: examplePage_def blank_def)
  from copyToClipboard_notifies[where qs = exampleQuery and p = examplePage and c = 0
      and err = NotAllowedError, OF h c] h show ?thesis
    by (simp add: n) blast
qed

text \<open>
  The claim as the specification words it, for every document, fails where no element
  matches \<open>.container\<close>: on \<open>barePage\<close> a rejected write is logged but no banner
  appears, and a write that resolved ends in the failure handler, which logs the
  \<open>TypeError\<close> of the success banner; both chains end rejected and the page gets no
  element.
\<close>

theorem copyToClipboard_without_container:
  "clipboardSettled exampleQuery (Some NotAllowedError) barePage =
     (Some TypeError, barePage\<lparr>console := [(''Could not copy text: '', NotAllowedError)]\<rparr>) \<and>
   clipboardSettled exampleQuery None barePage =
     (Some TypeError, barePage\<lparr>console := [(''Could not copy text: '', TypeError)]\<rparr>)"
proof -
  have h: "exampleQuery (elements q) ''.container'' = None" if "elements q = elements barePage" for q :: page
    using that by (simp add: exampleQuery_def barePage_def blank_def)
  have e: "console barePage = []" by (simp add: barePage_def)
  show ?thesis
    by (simp add: clipboardSettled_def onCopied_def onCopyFailed_def showAlert_null_target h e)
qed

subsection \<open>Loading state\<close>

text \<open>
  C9. For an element without a \<open>data-original-text\<close> attribute, \<open>setLoading(el, false)\<close>
  only enables the element: its content and every other element stay as they are. So
  after \<open>setLoading(el, true)\<close> the spinner is not taken away: the element ends enabled
  with the spinner as its content.
\<close>

theorem setLoading_off_without_original:
  assumes "getAttribute ''data-original-text'' (elements p el) = None"
  shows "(\<exists>p'. setLoading qs (Element el) False p = Inr p' \<and>
            p' = update el (\<lambda>e. e\<lparr>disabled := False\<rparr>) p \<and>
            innerHTML (elements p' el) = innerHTML (elements p el) \<and>
            \<not> disabled (elements p' el)) \<and>
         (\<exists>p'. andThen (setLoading qs (Element el) True p) (setLoading qs (Element el) False) = Inr p' \<and>
            innerHTML (elements p' el) = spinner \<and>
            \<not> disabled (elements p' el))"
  using assms
  by (simp add: setLoading_def andThen_def update_def js_or_def getAttribute_def)

theorem setLoading_off_without_original_witness:
  "getAttribute ''data-original-text'' (elements examplePage 1) = None \<and>
   (\<exists>p'. setLoading exampleQuery (Element 1) False examplePage = Inr p' \<and>
      innerHTML (elements p' 1) = ''Save'' \<and> \<not> disabled (elements p' 1)) \<and>
   (\<exists>p'. andThen (setLoading exampleQuery (Element 1) True examplePage)
            (setLoading exampleQuery (Element 1) False) = Inr p' \<and>
      innerHTML (elements p' 1) = spinner \<and> \<not> disabled (elements p' 1))"
proof -
  have h: "getAttribute ''data-original-text'' (elements examplePage 1) = None"
    by (simp add: getAttribute_def examplePage_def blank_def)
  have s: "innerHTML (elements examplePage 1) = ''Save''"
    by (simp add: examplePage_def blank_def)
  from setLoading_off_without_original[OF h, where qs = exampleQuery] h s show ?thesis
    by auto
qed

lemma storeOriginalText_innerHTML:
  "innerHTML (elements (storeOriginalText bs p) n) = innerHTML (elements p n)"
  by (induction bs arbitrary: p) (auto simp: elements_update setAttribute_def)

lemma storeOriginalText_attr_keep:
  "attributes (elements p n) ''data-original-text'' = Some (innerHTML (elements p n)) \<Longrightarrow>
   attributes (elements (storeOriginalText bs p) n) ''data-original-text'' =
     Some (innerHTML (elements p n))"
  by (induction bs arbitrary: p) (auto simp: elements_update setAttribute_def)

lemma storeOriginalText_attr:
  "n \<in> set bs \<Longrightarrow>
   getAttribute ''data-original-text'' (elements (storeOriginalText bs p) n) =
     Some (innerHTML (elements p n))"
proof (induction bs arbitrary: p)
  case Nil
  then show ?case by simp
next
  case (Cons b bs)
  show ?case
  proof (cases "n = b")
    case True
    then show ?thesis
      using storeOriginalText_attr_keep
        [of "update b (\<lambda>e. setAttribute ''data-original-text'' (innerHTML e) e) p" n bs]
      by (simp add: getAttribute_def elements_update setAttribute_def)
  next
    case False
    with Cons show ?thesis by (simp add: elements_update)
  qed
qed

text \<open>
  The round trip: after \<open>storeOriginalText\<close> on a collection that holds the element,
  switching the loading state on and off gives the element its content back and leaves
  it enabled, provided the content is not the empty string.
\<close>

theorem setLoading_roundtrip:
  assumes "el \<in> set buttons" and "innerHTML (elements p el) \<noteq> []"
  shows "\<exists>p'. andThen (setLoading qs (Element el) True (storeOriginalText buttons p))
            (setLoading qs (Element el) False) = Inr p' \<and>
          innerHTML (elements p' el) = innerHTML (elements p el) \<and>
          \<not> disabled (elements p' el)"
  using assms storeOriginalText_attr[OF assms(1), of p]
  by (simp add: andThen_def setLoading_def elements_update js_or_def getAttribute_def)

theorem setLoading_roundtrip_witness:
  "\<exists>p'. andThen (setLoading exampleQuery (Element 1) True (storeOriginalText [1, 2] examplePage))
            (setLoading exampleQuery (Element 1) False) = Inr p' \<and>
          innerHTML (elements p' 1) = ''Save'' \<and>
          \<not> disabled (elements p' 1)"
proof -
  have h: "(1::nat) \<in> set [1, 2]" by simp
  have s: "innerHTML (elements examplePage 1) = ''Save''"
    by (simp add: examplePage_def blank_def)
  then have ne: "innerHTML (elements examplePage 1) \<noteq> []" by simp
  from setLoading_roundtrip[OF h ne, where qs = exampleQuery] s show ?thesis by simp
qed

text \<open>
  C5 asks for the round trip on every element \<open>storeOriginalText\<close> was called on. For
  an element whose content is the empty string the stored attribute is the empty
  string, which \<open>||\<close> treats as absent: node 2 of \<open>examplePage\<close> keeps the spinner.
\<close>

theorem setLoading_roundtrip_empty_content:
  "innerHTML (elements examplePage 2) = [] \<and>
   (\<exists>p'. andThen (setLoading exampleQuery (Element 2) True (storeOriginalText [1, 2] examplePage))
            (setLoading exampleQuery (Element 2) False) = Inr p' \<and>
      innerHTML (elements p' 2) = spinner \<and>
      spinner \<noteq> [])"
  by (simp add: andThen_def setLoading_def elements_update js_or_def getAttribute_def
      setAttribute_def examplePage_def blank_def spinner_def)

end
